theory Spec2Isabelle
  imports Complex_Main "HOL-Library.Log_Nat"
begin

section \<open>Data model of App.js\<close>

text \<open>
  A board cell holds \<^verbatim>\<open>null\<close> (the fill value of \<^verbatim>\<open>initialState\<close>), one of the
  strings \<^verbatim>\<open>"X"\<close> and \<^verbatim>\<open>"O"\<close> (\<open>MarkX\<close> and \<open>MarkO\<close> below), or \<^verbatim>\<open>undefined\<close>
  (what JavaScript reads at an index the array does not hold).
\<close>

datatype mark = MarkX | MarkO

datatype cell = Null | Undefined | Str mark

text \<open>
  A JavaScript array may be sparse: an assignment beyond its length grows it and leaves
  holes. A board is therefore a list of slots, \<open>None\<close> being a hole and \<open>Some c\<close> an
  element. Indices are array indices (natural numbers).
\<close>

type_synonym board = "cell option list"

text \<open>Truthiness as \<^verbatim>\<open>if (v)\<close>, \<^verbatim>\<open>v && ...\<close> and \<^verbatim>\<open>!v\<close> test it: only the two strings are truthy.\<close>

fun truthy :: "cell \<Rightarrow> bool" where
  "truthy (Str m) = True"
| "truthy Null = False"
| "truthy Undefined = False"

text \<open>\<^verbatim>\<open>board[i]\<close>: a hole and an index past the end both read as \<^verbatim>\<open>undefined\<close>.\<close>

definition cell_at :: "board \<Rightarrow> nat \<Rightarrow> cell" where
  "cell_at b i =
     (if i < length b then (case b ! i of None \<Rightarrow> Undefined | Some c \<Rightarrow> c) else Undefined)"

text \<open>
  \<^verbatim>\<open>board[i] = v\<close>: inside the array the slot is replaced; past the end the array grows to
  length \<open>i + 1\<close> and the slots in between are holes.
\<close>

definition assign :: "board \<Rightarrow> nat \<Rightarrow> cell \<Rightarrow> board" where
  "assign b i v =
     (if i < length b then b[i := Some v]
      else b @ replicate (i - length b) None @ [Some v])"

text \<open>\<^verbatim>\<open>[...board]\<close>: the iterator yields \<^verbatim>\<open>undefined\<close> for a hole, so the copy is dense.\<close>

definition spread :: "board \<Rightarrow> board" where
  "spread b = map (\<lambda>slot. Some (case slot of None \<Rightarrow> Undefined | Some c \<Rightarrow> c)) b"

text \<open>\<^verbatim>\<open>board.slice()\<close>: a copy that keeps the holes.\<close>

definition slice :: "board \<Rightarrow> board" where
  "slice b = b"

text \<open>\<^verbatim>\<open>board.every((cell) => cell)\<close>: \<^verbatim>\<open>every\<close> does not visit holes.\<close>

definition every_cell :: "board \<Rightarrow> bool" where
  "every_cell b = list_all (\<lambda>slot. case slot of None \<Rightarrow> True | Some c \<Rightarrow> truthy c) b"

text \<open>\<^verbatim>\<open>board.filter((x) => x)\<close>: \<^verbatim>\<open>filter\<close> does not visit holes either.\<close>

definition filter_truthy :: "board \<Rightarrow> cell list" where
  "filter_truthy b =
     List.map_filter (\<lambda>slot. case slot of None \<Rightarrow> None
                              | Some c \<Rightarrow> if truthy c then Some c else None) b"

datatype mode = PVP | PVC

record game_state =
  board :: board
  xIsNext :: bool
  winner :: cell
  tie :: bool

text \<open>The score object \<^verbatim>\<open>{ X: 0, O: 0, Tie: 0 }\<close> and its three keys.\<close>

record scores_state =
  scoreX :: nat
  scoreO :: nat
  scoreTie :: nat

datatype score_key = KeyMark mark | KeyTie

text \<open>The component state held by the \<^verbatim>\<open>useState\<close> hooks of \<^verbatim>\<open>App\<close> (the theme apart).\<close>

record app_state =
  mode :: mode
  game :: game_state
  scores :: scores_state
  started :: bool

section \<open>Rules\<close>

definition initialState :: game_state where
  "initialState = \<lparr>board = replicate 9 (Some Null), xIsNext = True, winner = Null, tie = False\<rparr>"

definition lines :: "(nat \<times> nat \<times> nat) list" where
  "lines = [(0, 1, 2), (3, 4, 5), (6, 7, 8),
            (0, 3, 6), (1, 4, 7), (2, 5, 8),
            (0, 4, 8), (2, 4, 6)]"

text \<open>The \<^verbatim>\<open>for (let [a, b, c] of lines)\<close> loop of \<^verbatim>\<open>getWinner\<close>, and its \<^verbatim>\<open>return null\<close>.\<close>

fun getWinner_loop :: "board \<Rightarrow> (nat \<times> nat \<times> nat) list \<Rightarrow> cell" where
  "getWinner_loop b [] = Null"
| "getWinner_loop b ((a, b', c) # rest) =
     (if truthy (cell_at b a) \<and> cell_at b a = cell_at b b' \<and> cell_at b a = cell_at b c
      then cell_at b a
      else getWinner_loop b rest)"

definition getWinner :: "board \<Rightarrow> cell" where
  "getWinner b = getWinner_loop b lines"

text \<open>
  \<^verbatim>\<open>board.map((cell, idx) => (cell ? null : idx)).filter((v) => v !== null)\<close>:
  \<^verbatim>\<open>map\<close> keeps a hole a hole and \<^verbatim>\<open>filter\<close> skips it, so the result lists, in
  ascending order, the indices of the elements that are falsy.
\<close>

definition getAvailableMoves :: "board \<Rightarrow> nat list" where
  "getAvailableMoves b =
     List.map_filter
       (\<lambda>(idx, slot). case slot of None \<Rightarrow> None
                        | Some c \<Rightarrow> if truthy c then None else Some idx)
       (enumerate 0 b)"

text \<open>
  JavaScript numbers are IEEE-754 doubles, and \<^verbatim>\<open>Math.random() * moves.length\<close> is the
  exact product rounded to the nearest double, ties to the even significand. The doubles
  in the binade of \<open>x > 0\<close> are the multiples of \<open>ulp x\<close>: \<open>2 ^ (e - 52)\<close> for
  \<open>2 ^ e \<le> x < 2 ^ (e + 1)\<close>, and \<open>2 ^ - 1074\<close> below \<open>2 ^ - 1022\<close> (the subnormal
  range). Overflow is left out: the products here stay far below \<open>2 ^ 1024\<close>.
\<close>

definition round_ties_even :: "real \<Rightarrow> int" where
  "round_ties_even y =
     (let f = \<lfloor>y\<rfloor> in
      if y - of_int f < 1 / 2 then f
      else if 1 / 2 < y - of_int f then f + 1
      else if even f then f else f + 1)"

definition ulp :: "real \<Rightarrow> real" where
  "ulp x = (if 1 \<le> x then 2 ^ floorlog 2 (nat \<lfloor>x\<rfloor>) / 2 ^ 53
            else 1 / 2 ^ (min (floorlog 2 (nat (\<lceil>1 / x\<rceil> - 1))) 1022 + 52))"

definition round_double :: "real \<Rightarrow> real" where
  "round_double x =
     (if x = 0 then 0
      else sgn x * (ulp \<bar>x\<bar> * of_int (round_ties_even (\<bar>x\<bar> / ulp \<bar>x\<bar>))))"

text \<open>
  \<^verbatim>\<open>Math.floor(Math.random() * moves.length)\<close>, for the draw \<open>r\<close> that \<^verbatim>\<open>Math.random()\<close>
  returns and the length \<open>n\<close>. \<^verbatim>\<open>Math.random()\<close> returns a double \<open>r\<close> with \<open>0 \<le> r < 1\<close>;
  the largest such double is \<open>1 - 1 / 2 ^ 53\<close>.
\<close>

definition random_index :: "real \<Rightarrow> nat \<Rightarrow> nat" where
  "random_index r n = nat \<lfloor>round_double (r * real n)\<rfloor>"

text \<open>
  \<^verbatim>\<open>getRandomMove\<close> draws \<^verbatim>\<open>Math.random()\<close>; the draw is the parameter \<open>r\<close>. \<open>None\<close> is
  the \<^verbatim>\<open>null\<close> the function returns when no move is left.
\<close>

definition getRandomMove :: "real \<Rightarrow> board \<Rightarrow> nat option" where
  "getRandomMove r b =
     (let moves = getAvailableMoves b in
      if length moves = 0 then None
      else Some (moves ! random_index r (length moves)))"

text \<open>
  The two \<^verbatim>\<open>for (let idx of moves)\<close> loops of \<^verbatim>\<open>bestAIMove\<close>: the first index whose
  hypothetical placement of mark \<open>m\<close> makes \<open>m\<close> the winner.
\<close>

fun try_moves :: "mark \<Rightarrow> board \<Rightarrow> nat list \<Rightarrow> nat option" where
  "try_moves m b [] = None"
| "try_moves m b (idx # rest) =
     (if getWinner (assign (slice b) idx (Str m)) = Str m then Some idx
      else try_moves m b rest)"

definition bestAIMove :: "real \<Rightarrow> board \<Rightarrow> nat option" where
  "bestAIMove r b =
     (let moves = getAvailableMoves b in
      case try_moves MarkO b moves of
        Some idx \<Rightarrow> Some idx
      | None \<Rightarrow>
          (case try_moves MarkX b moves of
             Some idx \<Rightarrow> Some idx
           | None \<Rightarrow> getRandomMove r b))"

definition nextTurn :: "board \<Rightarrow> mark" where
  "nextTurn b = (if length (filter_truthy b) mod 2 = 0 then MarkX else MarkO)"

section \<open>Event handlers\<close>

text \<open>The initial values of the hooks.\<close>

definition initialApp :: app_state where
  "initialApp = \<lparr>mode = PVP, game = initialState,
                 scores = \<lparr>scoreX = 0, scoreO = 0, scoreTie = 0\<rparr>, started = False\<rparr>"

definition startNewGame :: "app_state \<Rightarrow> app_state" where
  "startNewGame s = s\<lparr>game := initialState, started := True\<rparr>"

definition resetAll :: "app_state \<Rightarrow> app_state" where
  "resetAll s = s\<lparr>game := initialState,
                  scores := \<lparr>scoreX = 0, scoreO = 0, scoreTie = 0\<rparr>,
                  started := False, mode := PVP\<rparr>"

text \<open>The key \<^verbatim>\<open>winner ? winner : "Tie"\<close>.\<close>

fun score_key_of :: "cell \<Rightarrow> score_key" where
  "score_key_of (Str m) = KeyMark m"
| "score_key_of Null = KeyTie"
| "score_key_of Undefined = KeyTie"

text \<open>The updater \<^verbatim>\<open>(prev) => ({ ...prev, [key]: prev[key] + 1 })\<close>.\<close>

fun bump :: "score_key \<Rightarrow> scores_state \<Rightarrow> scores_state" where
  "bump (KeyMark MarkX) prev = prev\<lparr>scoreX := scoreX prev + 1\<rparr>"
| "bump (KeyMark MarkO) prev = prev\<lparr>scoreO := scoreO prev + 1\<rparr>"
| "bump KeyTie prev = prev\<lparr>scoreTie := scoreTie prev + 1\<rparr>"

text \<open>
  \<^verbatim>\<open>handleMove(idx)\<close>. The handler returns the state after its \<^verbatim>\<open>setGame\<close> together
  with the score update it hands to \<^verbatim>\<open>setTimeout\<close>, if any: the key whose count the
  callback will raise. An early \<^verbatim>\<open>return\<close> leaves the state as it is and schedules nothing.
\<close>

definition handleMove :: "app_state \<Rightarrow> nat \<Rightarrow> app_state \<times> score_key option" where
  "handleMove s idx =
     (let g = game s in
      if truthy (cell_at (board g) idx) \<or> truthy (winner g) \<or> tie g then (s, None)
      else
        let b = assign (spread (board g)) idx (Str (if xIsNext g then MarkX else MarkO));
            w = getWinner b;
            t = (\<not> truthy w \<and> every_cell b)
        in (s\<lparr>game := \<lparr>board = b, xIsNext = \<not> xIsNext g, winner = w, tie = t\<rparr>\<rparr>,
            if truthy w \<or> t then Some (score_key_of w) else None))"

text \<open>The scheduled callback: \<^verbatim>\<open>setScores\<close> with the updater.\<close>

definition run_score_timer :: "score_key option \<Rightarrow> app_state \<Rightarrow> app_state" where
  "run_score_timer k s = (case k of None \<Rightarrow> s | Some key \<Rightarrow> s\<lparr>scores := bump key (scores s)\<rparr>)"

text \<open>A move together with the callback it scheduled, once that callback has run.\<close>

definition handleMove_settled :: "app_state \<Rightarrow> nat \<Rightarrow> app_state" where
  "handleMove_settled s idx = (case handleMove s idx of (s', k) \<Rightarrow> run_score_timer k s')"

text \<open>A sequence of moves, each settled before the next.\<close>

fun play :: "app_state \<Rightarrow> nat list \<Rightarrow> app_state" where
  "play s [] = s"
| "play s (idx # rest) = play (handleMove_settled s idx) rest"

definition chooseMode :: "app_state \<Rightarrow> mode \<Rightarrow> app_state" where
  "chooseMode s newMode = s\<lparr>mode := newMode, started := False, game := initialState\<rparr>"

text \<open>
  The buttons of \<^verbatim>\<open>ModeSelect\<close> call \<^verbatim>\<open>onSelect\<close>, which is \<^verbatim>\<open>chooseMode\<close>, and are rendered
  with \<^verbatim>\<open>disabled={started}\<close>: a click on a disabled button calls nothing.
\<close>

definition ModeSelect_click :: "app_state \<Rightarrow> mode \<Rightarrow> app_state" where
  "ModeSelect_click s newMode = (if started s then s else chooseMode s newMode)"

section \<open>Calls and the random draw\<close>

text \<open>
  The functions of the game core as calls, and what a call returns (for a handler, the
  state it leaves) when \<^verbatim>\<open>Math.random()\<close> would return \<open>r\<close>. Only \<^verbatim>\<open>getRandomMove\<close>, and
  \<^verbatim>\<open>bestAIMove\<close> through it, call \<^verbatim>\<open>Math.random()\<close>.
\<close>

datatype operation =
    Call_getWinner board
  | Call_getAvailableMoves board
  | Call_getRandomMove board
  | Call_bestAIMove board
  | Call_nextTurn board
  | Call_startNewGame app_state
  | Call_resetAll app_state
  | Call_handleMove app_state nat
  | Call_chooseMode app_state mode

datatype returned =
    Ret_cell cell
  | Ret_moves "nat list"
  | Ret_move "nat option"
  | Ret_mark mark
  | Ret_state app_state
  | Ret_state_timer app_state "score_key option"

fun run :: "real \<Rightarrow> operation \<Rightarrow> returned" where
  "run r (Call_getWinner b) = Ret_cell (getWinner b)"
| "run r (Call_getAvailableMoves b) = Ret_moves (getAvailableMoves b)"
| "run r (Call_getRandomMove b) = Ret_move (getRandomMove r b)"
| "run r (Call_bestAIMove b) = Ret_move (bestAIMove r b)"
| "run r (Call_nextTurn b) = Ret_mark (nextTurn b)"
| "run r (Call_startNewGame s) = Ret_state (startNewGame s)"
| "run r (Call_resetAll s) = Ret_state (resetAll s)"
| "run r (Call_handleMove s idx) = (case handleMove s idx of (s', k) \<Rightarrow> Ret_state_timer s' k)"
| "run r (Call_chooseMode s newMode) = Ret_state (chooseMode s newMode)"

fun calls_random :: "operation \<Rightarrow> bool" where
  "calls_random (Call_getRandomMove b) = True"
| "calls_random (Call_bestAIMove b) = True"
| "calls_random other = False"

section \<open>Notions used in the statements\<close>

text \<open>The round is in progress: neither \<^verbatim>\<open>game.winner\<close> nor \<^verbatim>\<open>game.tie\<close> is set.\<close>

definition inProgress :: "game_state \<Rightarrow> bool" where
  "inProgress g = (\<not> truthy (winner g) \<and> \<not> tie g)"

text \<open>The guard of \<^verbatim>\<open>handleMove\<close> lets the move through.\<close>

definition accepted :: "app_state \<Rightarrow> nat \<Rightarrow> bool" where
  "accepted s idx = (inProgress (game s) \<and> \<not> truthy (cell_at (board (game s)) idx))"

text \<open>The number of occupied cells, \<^verbatim>\<open>board.filter((x) => x).length\<close>.\<close>

definition occupied :: "board \<Rightarrow> nat" where
  "occupied b = length (filter_truthy b)"

text \<open>Mark \<open>m\<close> occupies all three cells of a line; a line is fully owned by one mark.\<close>

definition owns :: "board \<Rightarrow> mark \<Rightarrow> nat \<times> nat \<times> nat \<Rightarrow> bool" where
  "owns b m l = (case l of (a, b', c) \<Rightarrow>
     cell_at b a = Str m \<and> cell_at b b' = Str m \<and> cell_at b c = Str m)"

definition fully_owned :: "board \<Rightarrow> nat \<times> nat \<times> nat \<Rightarrow> bool" where
  "fully_owned b l = (owns b MarkX l \<or> owns b MarkO l)"

text \<open>
  A legal move: an index whose element exists and is falsy. A move wins for \<open>m\<close> when the
  board with \<open>m\<close> placed there has \<open>m\<close> as its winner; \<open>least_winning\<close> is the least-index
  legal move that wins for \<open>m\<close>.
\<close>

definition legal :: "board \<Rightarrow> nat \<Rightarrow> bool" where
  "legal b i = (i < length b \<and> (case b ! i of None \<Rightarrow> False | Some c \<Rightarrow> \<not> truthy c))"

definition wins :: "mark \<Rightarrow> board \<Rightarrow> nat \<Rightarrow> bool" where
  "wins m b idx = (getWinner (assign b idx (Str m)) = Str m)"

definition least_winning :: "mark \<Rightarrow> board \<Rightarrow> nat \<Rightarrow> bool" where
  "least_winning m b i =
     (i \<in> set (getAvailableMoves b) \<and> wins m b i
      \<and> (\<forall>j \<in> set (getAvailableMoves b). wins m b j \<longrightarrow> i \<le> j))"

section \<open>Basic facts\<close>

lemma truthy_iff: "truthy c \<longleftrightarrow> (\<exists>m. c = Str m)"
  by (cases c) auto

lemma handleMove_rejected:
  "truthy (cell_at (board (game s)) idx) \<or> truthy (winner (game s)) \<or> tie (game s)
   \<Longrightarrow> handleMove s idx = (s, None)"
  by (simp add: handleMove_def Let_def)

lemma handleMove_settled_rejected:
  "truthy (cell_at (board (game s)) idx) \<or> truthy (winner (game s)) \<or> tie (game s)
   \<Longrightarrow> handleMove_settled s idx = s"
  by (simp add: handleMove_settled_def handleMove_rejected run_score_timer_def)

lemma play_terminal:
  "truthy (winner (game s)) \<or> tie (game s) \<Longrightarrow> play s idxs = s"
  by (induction idxs) (simp_all add: handleMove_settled_rejected)

lemma cell_at_spread: "cell_at (spread b) i = cell_at b i"
  by (auto simp: cell_at_def spread_def split: option.splits)

lemma length_spread: "length (spread b) = length b"
  by (simp add: spread_def)

lemma cell_at_assign: "cell_at (assign b i v) j = (if j = i then v else cell_at b j)"
  by (auto simp: cell_at_def assign_def nth_append split: option.splits)

lemma getWinner_loop_cases: "getWinner_loop b ls = Null \<or> (\<exists>m. getWinner_loop b ls = Str m)"
  by (induction b ls rule: getWinner_loop.induct) (auto simp: truthy_iff)

lemma getWinner_cases: "getWinner b = Null \<or> (\<exists>m. getWinner b = Str m)"
  by (simp add: getWinner_def getWinner_loop_cases)

lemma not_accepted_settled: "\<not> accepted s idx \<Longrightarrow> handleMove_settled s idx = s"
  by (rule handleMove_settled_rejected) (auto simp: accepted_def inProgress_def)

lemma game_settled:
  "game (handleMove_settled s idx) = game (fst (handleMove s idx))"
  by (simp add: handleMove_settled_def run_score_timer_def split: prod.splits option.splits)

lemma game_accepted:
  assumes "accepted s idx"
  shows "game (handleMove_settled s idx) =
           \<lparr>board = assign (spread (board (game s))) idx (Str (if xIsNext (game s) then MarkX else MarkO)),
            xIsNext = \<not> xIsNext (game s),
            winner = getWinner (assign (spread (board (game s))) idx (Str (if xIsNext (game s) then MarkX else MarkO))),
            tie = (\<not> truthy (getWinner (assign (spread (board (game s))) idx (Str (if xIsNext (game s) then MarkX else MarkO))))
                   \<and> every_cell (assign (spread (board (game s))) idx (Str (if xIsNext (game s) then MarkX else MarkO))))\<rparr>"
  using assms by (simp add: game_settled handleMove_def accepted_def inProgress_def Let_def)

lemma scores_accepted:
  assumes "accepted s idx"
  shows "scores (handleMove_settled s idx) =
           (if truthy (winner (game (handleMove_settled s idx))) \<or> tie (game (handleMove_settled s idx))
            then bump (score_key_of (winner (game (handleMove_settled s idx)))) (scores s)
            else scores s)"
  using assms
  by (auto simp: handleMove_settled_def run_score_timer_def handleMove_def accepted_def
      inProgress_def Let_def)

section \<open>Rejected moves\<close>

text \<open>
  C1, as stated, fails: \<^verbatim>\<open>handleMove\<close> has no range check. On a fresh round index 9 reads
  \<^verbatim>\<open>undefined\<close>, which is falsy, so the move is accepted: the copied board grows to ten
  cells with \<^verbatim>\<open>"X"\<close> at index 9 and the turn passes to \<^verbatim>\<open>"O"\<close>.
\<close>

theorem handleMove_out_of_range_counterexample:
  "\<not> (9::nat) < 9
   \<and> handleMove_settled (startNewGame initialApp) 9 \<noteq> startNewGame initialApp
   \<and> board (game (handleMove_settled (startNewGame initialApp) 9))
       = replicate 9 (Some Null) @ [Some (Str MarkX)]
   \<and> board (game (startNewGame initialApp)) = replicate 9 (Some Null)
   \<and> xIsNext (game (startNewGame initialApp)) = True
   \<and> xIsNext (game (handleMove_settled (startNewGame initialApp) 9)) = False"
  by code_simp

text \<open>
  C1, amended: for every state and every index, \<^verbatim>\<open>handleMove\<close> returns early whenever the
  round is already won or tied, or the cell at the index is occupied; the whole state
  (board, winner, tie flag, turn flag, scores) is then unchanged and no score update is
  scheduled.
\<close>

theorem handleMove_rejects_terminal_or_occupied:
  assumes "truthy (winner (game s)) \<or> tie (game s) \<or> truthy (cell_at (board (game s)) idx)"
  shows "handleMove s idx = (s, None) \<and> handleMove_settled s idx = s"
  using assms handleMove_rejected [of s idx] handleMove_settled_rejected [of s idx] by blast

theorem handleMove_rejects_terminal_or_occupied_witness:
  "truthy (cell_at (board (game (play (startNewGame initialApp) [0, 4]))) 4)
   \<and> handleMove (play (startNewGame initialApp) [0, 4]) 4
       = (play (startNewGame initialApp) [0, 4], None)
   \<and> handleMove_settled (play (startNewGame initialApp) [0, 4]) 4
       = play (startNewGame initialApp) [0, 4]"
proof -
  have occ: "truthy (cell_at (board (game (play (startNewGame initialApp) [0, 4]))) 4)"
    by code_simp
  then have "truthy (winner (game (play (startNewGame initialApp) [0, 4])))
      \<or> tie (game (play (startNewGame initialApp) [0, 4]))
      \<or> truthy (cell_at (board (game (play (startNewGame initialApp) [0, 4]))) 4)"
    by blast
  from handleMove_rejects_terminal_or_occupied [OF this] occ show ?thesis
    by blast
qed

section \<open>Mode selection\<close>

text \<open>
  C2, as stated, fails: \<^verbatim>\<open>chooseMode\<close> tests nothing. Called while a round is started it
  sets the mode, clears \<^verbatim>\<open>started\<close> and installs a fresh game.
\<close>

theorem chooseMode_started_counterexample:
  "started (startNewGame initialApp)
   \<and> chooseMode (startNewGame initialApp) PVC \<noteq> startNewGame initialApp
   \<and> mode (startNewGame initialApp) = PVP
   \<and> mode (chooseMode (startNewGame initialApp) PVC) = PVC
   \<and> started (chooseMode (startNewGame initialApp) PVC) = False"
  by code_simp

text \<open>
  C2, amended: while a round is started, a mode selection made through the \<^verbatim>\<open>ModeSelect\<close>
  buttons (the only caller of \<^verbatim>\<open>chooseMode\<close>, disabled while \<^verbatim>\<open>started\<close>) changes nothing.
  \<^verbatim>\<open>chooseMode\<close> itself always sets the mode, clears \<^verbatim>\<open>started\<close> and installs the initial
  game, leaving the scores as they are.
\<close>

theorem ModeSelect_click_started_noop:
  "(started s \<longrightarrow> ModeSelect_click s newMode = s)
   \<and> mode (chooseMode s newMode) = newMode
   \<and> started (chooseMode s newMode) = False
   \<and> game (chooseMode s newMode) = initialState
   \<and> scores (chooseMode s newMode) = scores s"
  by (simp add: ModeSelect_click_def chooseMode_def)

theorem ModeSelect_click_started_noop_witness:
  "started (startNewGame initialApp)
   \<and> ModeSelect_click (startNewGame initialApp) PVC = startNewGame initialApp"
proof -
  have st: "started (startNewGame initialApp)"
    by (simp add: startNewGame_def)
  from ModeSelect_click_started_noop [of "startNewGame initialApp" PVC] st show ?thesis
    by blast
qed

section \<open>Terminal rounds\<close>

text \<open>
  C6: once the round is won or tied, every further \<^verbatim>\<open>handleMove\<close>, at any index, returns
  early and schedules nothing, and so does any sequence of further moves: the state stays
  what it was.
\<close>

theorem terminal_lock:
  assumes "truthy (winner (game s)) \<or> tie (game s)"
  shows "handleMove s idx = (s, None) \<and> handleMove_settled s idx = s \<and> play s idxs = s"
  using assms handleMove_rejected [of s idx] handleMove_settled_rejected [of s idx]
    play_terminal [of s idxs] by blast

theorem terminal_lock_witness:
  "winner (game (play (startNewGame initialApp) [0, 4, 1, 5, 2])) = Str MarkX
   \<and> handleMove (play (startNewGame initialApp) [0, 4, 1, 5, 2]) 3
       = (play (startNewGame initialApp) [0, 4, 1, 5, 2], None)
   \<and> play (play (startNewGame initialApp) [0, 4, 1, 5, 2]) [3, 6, 9]
       = play (startNewGame initialApp) [0, 4, 1, 5, 2]"
proof -
  have won: "winner (game (play (startNewGame initialApp) [0, 4, 1, 5, 2])) = Str MarkX"
    by code_simp
  then have "truthy (winner (game (play (startNewGame initialApp) [0, 4, 1, 5, 2])))
      \<or> tie (game (play (startNewGame initialApp) [0, 4, 1, 5, 2]))"
    by simp
  from terminal_lock [OF this] won show ?thesis
    by blast
qed

section \<open>Starting a round\<close>

text \<open>
  C10: \<^verbatim>\<open>startNewGame\<close> installs the initial game (nine \<^verbatim>\<open>null\<close> cells, \<^verbatim>\<open>"X"\<close> to move, no
  winner, no tie) and sets \<^verbatim>\<open>started\<close>; scores and mode are what they were.
\<close>

theorem startNewGame_frame:
  "game (startNewGame s) = initialState
   \<and> board initialState = replicate 9 (Some Null)
   \<and> xIsNext initialState = True
   \<and> winner initialState = Null
   \<and> tie initialState = False
   \<and> started (startNewGame s) = True
   \<and> scores (startNewGame s) = scores s
   \<and> mode (startNewGame s) = mode s"
  by (simp add: startNewGame_def initialState_def)

section \<open>Winner detection\<close>

lemma owns_exclusive: "owns b MarkX l \<Longrightarrow> \<not> owns b MarkO l"
  by (auto simp: owns_def)

lemma line_test_iff:
  "truthy (cell_at b a) \<and> cell_at b a = cell_at b b' \<and> cell_at b a = cell_at b c
   \<longleftrightarrow> fully_owned b (a, b', c)"
proof
  assume h: "truthy (cell_at b a) \<and> cell_at b a = cell_at b b' \<and> cell_at b a = cell_at b c"
  then obtain m where "cell_at b a = Str m" by (auto simp: truthy_iff)
  moreover from this h have "cell_at b b' = Str m" and "cell_at b c = Str m" by metis+
  ultimately have "owns b m (a, b', c)" by (simp add: owns_def)
  then show "fully_owned b (a, b', c)" by (cases m) (simp_all add: fully_owned_def)
next
  assume "fully_owned b (a, b', c)"
  then show "truthy (cell_at b a) \<and> cell_at b a = cell_at b b' \<and> cell_at b a = cell_at b c"
    by (auto simp: fully_owned_def owns_def)
qed

lemma line_value:
  "fully_owned b (a, b', c) \<Longrightarrow>
   cell_at b a = (if owns b MarkX (a, b', c) then Str MarkX else Str MarkO)"
  by (auto simp: fully_owned_def owns_def)

lemma getWinner_loop_find:
  "getWinner_loop b ls =
     (case find (fully_owned b) ls of
        None \<Rightarrow> Null
      | Some l \<Rightarrow> if owns b MarkX l then Str MarkX else Str MarkO)"
proof (induction b ls rule: getWinner_loop.induct)
  case (1 b)
  show ?case by simp
next
  case (2 b a b' c rest)
  show ?case
  proof (cases "fully_owned b (a, b', c)")
    case True
    have t: "truthy (cell_at b a) \<and> cell_at b a = cell_at b b' \<and> cell_at b a = cell_at b c"
      using True line_test_iff [of b a b' c] by blast
    have "getWinner_loop b ((a, b', c) # rest) = cell_at b a"
      by (subst getWinner_loop.simps) (rule if_P [OF t])
    then show ?thesis using True line_value [OF True] by simp
  next
    case False
    have t: "\<not> (truthy (cell_at b a) \<and> cell_at b a = cell_at b b' \<and> cell_at b a = cell_at b c)"
      using False line_test_iff [of b a b' c] by blast
    have "getWinner_loop b ((a, b', c) # rest) = getWinner_loop b rest"
      by (subst getWinner_loop.simps) (rule if_not_P [OF t])
    then show ?thesis using False 2 [OF t] by simp
  qed
qed

lemma find_Some_mem: "find P xs = Some x \<Longrightarrow> x \<in> set xs \<and> P x"
  by (auto simp: find_Some_iff)

text \<open>
  C4: for every board, \<^verbatim>\<open>getWinner\<close> returns the mark that occupies all three cells of the
  first line, in the fixed order of \<open>lines\<close>, that one mark fully owns, and \<^verbatim>\<open>null\<close> when no
  line is fully owned.
\<close>

theorem getWinner_first_owned_line:
  "lines = [(0, 1, 2), (3, 4, 5), (6, 7, 8), (0, 3, 6), (1, 4, 7), (2, 5, 8), (0, 4, 8), (2, 4, 6)]
   \<and> getWinner b =
       (case find (fully_owned b) lines of
          None \<Rightarrow> Null
        | Some l \<Rightarrow> if owns b MarkX l then Str MarkX else Str MarkO)
   \<and> (getWinner b = Null \<longleftrightarrow> (\<nexists>l. l \<in> set lines \<and> fully_owned b l))
   \<and> (getWinner b = Str m \<longleftrightarrow> (\<exists>l. find (fully_owned b) lines = Some l \<and> owns b m l))"
proof -
  have f: "getWinner b =
       (case find (fully_owned b) lines of
          None \<Rightarrow> Null
        | Some l \<Rightarrow> if owns b MarkX l then Str MarkX else Str MarkO)"
    by (simp add: getWinner_def getWinner_loop_find)
  have n: "getWinner b = Null \<longleftrightarrow> (\<nexists>l. l \<in> set lines \<and> fully_owned b l)"
  proof (cases "find (fully_owned b) lines")
    case None
    then have "\<nexists>l. l \<in> set lines \<and> fully_owned b l" by (simp add: find_None_iff)
    then show ?thesis unfolding f None by simp
  next
    case (Some l)
    from find_Some_mem [OF Some] have "\<exists>l. l \<in> set lines \<and> fully_owned b l" by blast
    then show ?thesis unfolding f Some by simp
  qed
  have s: "getWinner b = Str m \<longleftrightarrow> (\<exists>l. find (fully_owned b) lines = Some l \<and> owns b m l)"
  proof (cases "find (fully_owned b) lines")
    case None
    then show ?thesis unfolding f by simp
  next
    case (Some l)
    then have "fully_owned b l" by (simp add: find_Some_mem)
    then show ?thesis
      unfolding f Some using owns_exclusive [of b l]
      by (cases m) (auto simp: fully_owned_def)
  qed
  show ?thesis using f n s by (simp add: lines_def)
qed

section \<open>Scores\<close>

text \<open>
  C5: an accepted move that ends the round raises exactly one count by one, the winner's
  on a win and the tie count on a tie, and leaves the other two as they are; a rejected
  move, and a move after which the round is still in progress, changes no count. (The
  update runs in the callback the move schedules; \<open>handleMove_settled\<close> is the move with
  that callback run.)
\<close>

theorem score_incremented_once_on_terminal_move:
  "(accepted s idx \<and> winner (game (handleMove_settled s idx)) = Str MarkX \<longrightarrow>
      scoreX (scores (handleMove_settled s idx)) = scoreX (scores s) + 1
      \<and> scoreO (scores (handleMove_settled s idx)) = scoreO (scores s)
      \<and> scoreTie (scores (handleMove_settled s idx)) = scoreTie (scores s))
   \<and> (accepted s idx \<and> winner (game (handleMove_settled s idx)) = Str MarkO \<longrightarrow>
      scoreX (scores (handleMove_settled s idx)) = scoreX (scores s)
      \<and> scoreO (scores (handleMove_settled s idx)) = scoreO (scores s) + 1
      \<and> scoreTie (scores (handleMove_settled s idx)) = scoreTie (scores s))
   \<and> (accepted s idx \<and> tie (game (handleMove_settled s idx)) \<longrightarrow>
      scoreX (scores (handleMove_settled s idx)) = scoreX (scores s)
      \<and> scoreO (scores (handleMove_settled s idx)) = scoreO (scores s)
      \<and> scoreTie (scores (handleMove_settled s idx)) = scoreTie (scores s) + 1)
   \<and> (\<not> accepted s idx \<or> inProgress (game (handleMove_settled s idx)) \<longrightarrow>
      scores (handleMove_settled s idx) = scores s)"
proof (cases "accepted s idx")
  case False
  then show ?thesis by (simp add: not_accepted_settled)
next
  case True
  have tie_no_winner: "tie (game (handleMove_settled s idx)) \<Longrightarrow>
      score_key_of (winner (game (handleMove_settled s idx))) = KeyTie"
    using getWinner_cases [of "assign (spread (board (game s))) idx (Str (if xIsNext (game s) then MarkX else MarkO))"]
    by (auto simp: game_accepted [OF True])
  show ?thesis
    using True tie_no_winner by (auto simp: scores_accepted inProgress_def)
qed

theorem score_incremented_once_on_terminal_move_witness:
  "accepted (play (startNewGame initialApp) [0, 4, 1, 5]) 2
   \<and> winner (game (handleMove_settled (play (startNewGame initialApp) [0, 4, 1, 5]) 2)) = Str MarkX
   \<and> scoreX (scores (play (startNewGame initialApp) [0, 4, 1, 5])) = 0
   \<and> scoreX (scores (handleMove_settled (play (startNewGame initialApp) [0, 4, 1, 5]) 2)) = 0 + 1
   \<and> accepted (play (startNewGame initialApp) [0, 3, 1, 4, 8]) 5
   \<and> winner (game (handleMove_settled (play (startNewGame initialApp) [0, 3, 1, 4, 8]) 5)) = Str MarkO
   \<and> scoreO (scores (play (startNewGame initialApp) [0, 3, 1, 4, 8])) = 0
   \<and> scoreO (scores (handleMove_settled (play (startNewGame initialApp) [0, 3, 1, 4, 8]) 5)) = 0 + 1
   \<and> accepted (play (startNewGame initialApp) [0, 1, 2, 4, 3, 5, 7, 6]) 8
   \<and> tie (game (handleMove_settled (play (startNewGame initialApp) [0, 1, 2, 4, 3, 5, 7, 6]) 8))
   \<and> scoreTie (scores (play (startNewGame initialApp) [0, 1, 2, 4, 3, 5, 7, 6])) = 0
   \<and> scoreTie (scores (handleMove_settled (play (startNewGame initialApp) [0, 1, 2, 4, 3, 5, 7, 6]) 8)) = 0 + 1
   \<and> inProgress (game (handleMove_settled (startNewGame initialApp) 4))
   \<and> scores (handleMove_settled (startNewGame initialApp) 4) = scores (startNewGame initialApp)"
proof -
  have x1: "accepted (play (startNewGame initialApp) [0, 4, 1, 5]) 2" by code_simp
  have x2: "winner (game (handleMove_settled (play (startNewGame initialApp) [0, 4, 1, 5]) 2)) = Str MarkX"
    by code_simp
  have x3: "scoreX (scores (play (startNewGame initialApp) [0, 4, 1, 5])) = 0" by code_simp
  have o1: "accepted (play (startNewGame initialApp) [0, 3, 1, 4, 8]) 5" by code_simp
  have o2: "winner (game (handleMove_settled (play (startNewGame initialApp) [0, 3, 1, 4, 8]) 5)) = Str MarkO"
    by code_simp
  have o3: "scoreO (scores (play (startNewGame initialApp) [0, 3, 1, 4, 8])) = 0" by code_simp
  have t1: "accepted (play (startNewGame initialApp) [0, 1, 2, 4, 3, 5, 7, 6]) 8" by code_simp
  have t2: "tie (game (handleMove_settled (play (startNewGame initialApp) [0, 1, 2, 4, 3, 5, 7, 6]) 8))"
    by code_simp
  have t3: "scoreTie (scores (play (startNewGame initialApp) [0, 1, 2, 4, 3, 5, 7, 6])) = 0"
    by code_simp
  have n1: "inProgress (game (handleMove_settled (startNewGame initialApp) 4))" by code_simp
  from score_incremented_once_on_terminal_move
         [of "play (startNewGame initialApp) [0, 4, 1, 5]" 2] x1 x2 x3
  have x: "scoreX (scores (handleMove_settled (play (startNewGame initialApp) [0, 4, 1, 5]) 2)) = 0 + 1"
    by metis
  from score_incremented_once_on_terminal_move
         [of "play (startNewGame initialApp) [0, 3, 1, 4, 8]" 5] o1 o2 o3
  have o: "scoreO (scores (handleMove_settled (play (startNewGame initialApp) [0, 3, 1, 4, 8]) 5)) = 0 + 1"
    by metis
  from score_incremented_once_on_terminal_move
         [of "play (startNewGame initialApp) [0, 1, 2, 4, 3, 5, 7, 6]" 8] t1 t2 t3
  have t: "scoreTie (scores (handleMove_settled (play (startNewGame initialApp) [0, 1, 2, 4, 3, 5, 7, 6]) 8)) = 0 + 1"
    by metis
  from score_incremented_once_on_terminal_move [of "startNewGame initialApp" 4] n1
  have n: "scores (handleMove_settled (startNewGame initialApp) 4) = scores (startNewGame initialApp)"
    by blast
  from x1 x2 x3 x o1 o2 o3 o t1 t2 t3 t n1 n show ?thesis
    by blast
qed

section \<open>Ties\<close>

lemma every_cell_dense:
  "None \<notin> set b \<Longrightarrow> every_cell b \<longleftrightarrow> (\<forall>i<length b. truthy (cell_at b i))"
  by (auto simp: every_cell_def list_all_length cell_at_def in_set_conv_nth split: option.splits)

lemma spread_dense: "None \<notin> set (spread b)"
  by (auto simp: spread_def)

lemma assign_dense: "None \<notin> set b \<Longrightarrow> i < length b \<Longrightarrow> None \<notin> set (assign b i v)"
  by (auto simp: assign_def dest: set_update_subset_insert [THEN subsetD])

lemma length_assign_in: "i < length b \<Longrightarrow> length (assign b i v) = length b"
  by (simp add: assign_def)

text \<open>
  C7: after an accepted move on a nine-cell board, the stored winner is \<^verbatim>\<open>getWinner\<close> of the
  new board, and the tie flag is set iff \<^verbatim>\<open>getWinner\<close> of the new board is \<^verbatim>\<open>null\<close> and each
  of the nine cells is occupied; so whenever the new board has a winner, also when the
  move filled the board, the round is won and not tied.
\<close>

theorem tie_iff_full_and_no_winner:
  assumes "accepted s idx" and "length (board (game s)) = 9" and "idx < 9"
  shows "winner (game (handleMove_settled s idx)) = getWinner (board (game (handleMove_settled s idx)))
     \<and> (tie (game (handleMove_settled s idx)) \<longleftrightarrow>
          getWinner (board (game (handleMove_settled s idx))) = Null
          \<and> (\<forall>i<9. truthy (cell_at (board (game (handleMove_settled s idx))) i)))
     \<and> (getWinner (board (game (handleMove_settled s idx))) \<noteq> Null \<longrightarrow>
          truthy (winner (game (handleMove_settled s idx)))
          \<and> \<not> tie (game (handleMove_settled s idx)))"
proof -
  let ?b = "assign (spread (board (game s))) idx (Str (if xIsNext (game s) then MarkX else MarkO))"
  have len: "length ?b = 9"
    using assms(2,3) by (simp add: length_assign_in length_spread)
  have dense: "None \<notin> set ?b"
    using assms(2,3) by (intro assign_dense spread_dense) (simp add: length_spread)
  have every: "every_cell ?b \<longleftrightarrow> (\<forall>i<9. truthy (cell_at ?b i))"
    using every_cell_dense [OF dense] len by simp
  have w: "truthy (getWinner ?b) \<longleftrightarrow> getWinner ?b \<noteq> Null"
    using getWinner_cases [of ?b] by auto
  show ?thesis
    unfolding game_accepted [OF assms(1)] using every w by simp
qed

theorem tie_iff_full_and_no_winner_witness:
  "accepted (play (startNewGame initialApp) [0, 1, 2, 3, 7, 5, 8, 6]) 4
   \<and> length (board (game (play (startNewGame initialApp) [0, 1, 2, 3, 7, 5, 8, 6]))) = 9
   \<and> (4::nat) < 9
   \<and> every_cell (board (game (handleMove_settled (play (startNewGame initialApp) [0, 1, 2, 3, 7, 5, 8, 6]) 4)))
   \<and> getWinner (board (game (handleMove_settled (play (startNewGame initialApp) [0, 1, 2, 3, 7, 5, 8, 6]) 4))) = Str MarkX
   \<and> winner (game (handleMove_settled (play (startNewGame initialApp) [0, 1, 2, 3, 7, 5, 8, 6]) 4)) = Str MarkX
   \<and> \<not> tie (game (handleMove_settled (play (startNewGame initialApp) [0, 1, 2, 3, 7, 5, 8, 6]) 4))
   \<and> accepted (play (startNewGame initialApp) [0, 1, 2, 4, 3, 5, 7, 6]) 8
   \<and> length (board (game (play (startNewGame initialApp) [0, 1, 2, 4, 3, 5, 7, 6]))) = 9
   \<and> (8::nat) < 9
   \<and> getWinner (board (game (handleMove_settled (play (startNewGame initialApp) [0, 1, 2, 4, 3, 5, 7, 6]) 8))) = Null
   \<and> every_cell (board (game (handleMove_settled (play (startNewGame initialApp) [0, 1, 2, 4, 3, 5, 7, 6]) 8)))
   \<and> tie (game (handleMove_settled (play (startNewGame initialApp) [0, 1, 2, 4, 3, 5, 7, 6]) 8))"
proof -
  let ?s = "play (startNewGame initialApp) [0, 1, 2, 3, 7, 5, 8, 6]"
  let ?t = "play (startNewGame initialApp) [0, 1, 2, 4, 3, 5, 7, 6]"
  have a1: "accepted ?s 4" by code_simp
  have a2: "length (board (game ?s)) = 9" by code_simp
  have a3: "(4::nat) < 9" by simp
  have a4: "every_cell (board (game (handleMove_settled ?s 4)))" by code_simp
  have a5: "getWinner (board (game (handleMove_settled ?s 4))) = Str MarkX" by code_simp
  have b1: "accepted ?t 8" by code_simp
  have b2: "length (board (game ?t)) = 9" by code_simp
  have b3: "(8::nat) < 9" by simp
  have b4: "getWinner (board (game (handleMove_settled ?t 8))) = Null" by code_simp
  have b5: "every_cell (board (game (handleMove_settled ?t 8)))" by code_simp
  have b6: "\<forall>i<9. truthy (cell_at (board (game (handleMove_settled ?t 8))) i)" by code_simp
  from tie_iff_full_and_no_winner [OF a1 a2 a3] a5
  have a: "winner (game (handleMove_settled ?s 4)) = Str MarkX \<and> \<not> tie (game (handleMove_settled ?s 4))"
    by simp
  from tie_iff_full_and_no_winner [OF b1 b2 b3] b4 b6
  have b: "tie (game (handleMove_settled ?t 8))"
    by blast
  from a1 a2 a3 a4 a5 a b1 b2 b3 b4 b5 b show ?thesis
    by blast
qed

section \<open>Turns\<close>

lemma occupied_filter:
  "occupied b = length (filter (\<lambda>slot. case slot of None \<Rightarrow> False | Some c \<Rightarrow> truthy c) b)"
proof -
  have "(\<lambda>slot. (case slot of None \<Rightarrow> None | Some c \<Rightarrow> if truthy c then Some c else None) \<noteq> None)
        = (\<lambda>slot. case slot of None \<Rightarrow> False | Some c \<Rightarrow> truthy c)"
    by (auto split: option.splits)
  then show ?thesis
    by (simp add: occupied_def filter_truthy_def map_filter_def)
qed

lemma occupied_spread: "occupied (spread b) = occupied b"
  unfolding occupied_filter spread_def
  by (induction b) (auto split: option.splits)

lemma occupied_append: "occupied (xs @ ys) = occupied xs + occupied ys"
  by (simp add: occupied_filter)

lemma occupied_assign:
  assumes "\<not> truthy (cell_at b i)"
  shows "occupied (assign b i (Str m)) = Suc (occupied b)"
proof (cases "i < length b")
  case True
  then have free: "\<not> (case b ! i of None \<Rightarrow> False | Some c \<Rightarrow> truthy c)"
    using assms by (auto simp: cell_at_def split: option.splits)
  have "b = take i b @ b ! i # drop (Suc i) b"
    using True by (simp add: id_take_nth_drop)
  then have "occupied b = occupied (take i b) + occupied (drop (Suc i) b)"
    using free by (metis (no_types, lifting) occupied_filter filter.simps(2) filter_append length_append)
  moreover have "occupied (assign b i (Str m)) = occupied (take i b) + Suc (occupied (drop (Suc i) b))"
    using True by (simp add: assign_def upd_conv_take_nth_drop occupied_filter)
  ultimately show ?thesis by simp
next
  case False
  then show ?thesis
    by (simp add: assign_def occupied_filter)
qed

lemma accepted_step:
  assumes "accepted s idx"
  shows "xIsNext (game (handleMove_settled s idx)) = (\<not> xIsNext (game s))"
    and "occupied (board (game (handleMove_settled s idx))) = Suc (occupied (board (game s)))"
  using assms
  by (simp_all add: game_accepted occupied_assign cell_at_spread occupied_spread accepted_def)

lemma step_parity:
  assumes "xIsNext (game s) = even (occupied (board (game s)))"
  shows "xIsNext (game (handleMove_settled s idx))
           = even (occupied (board (game (handleMove_settled s idx))))"
proof (cases "accepted s idx")
  case True
  then show ?thesis using assms by (simp add: accepted_step)
next
  case False
  then show ?thesis using assms by (simp add: not_accepted_settled)
qed

lemma play_parity:
  "xIsNext (game s) = even (occupied (board (game s)))
   \<Longrightarrow> xIsNext (game (play s idxs)) = even (occupied (board (game (play s idxs))))"
  by (induction idxs arbitrary: s) (simp_all add: step_parity)

lemma fresh_parity:
  "xIsNext (game (startNewGame s0)) \<and> occupied (board (game (startNewGame s0))) = 0"
  by (simp add: startNewGame_def initialState_def occupied_filter)

text \<open>
  C8: a fresh round has \<^verbatim>\<open>"X"\<close> to move and no occupied cell. For moves at the cell
  indices 0 to 8: every accepted move flips the turn flag and occupies one more cell, and
  a rejected one changes nothing; so after any sequence of such moves from a fresh round
  the turn flag says \<^verbatim>\<open>"X"\<close> exactly when the number of occupied cells is even, which is
  what \<^verbatim>\<open>nextTurn\<close> computes from the board.
\<close>

theorem turn_follows_board_parity:
  assumes "\<forall>i \<in> set idxs. i < 9" and "idx < 9"
  shows "xIsNext (game (startNewGame s0)) = True
   \<and> occupied (board (game (startNewGame s0))) = 0
   \<and> xIsNext (game (play (startNewGame s0) idxs))
        = even (occupied (board (game (play (startNewGame s0) idxs))))
   \<and> (if xIsNext (game (play (startNewGame s0) idxs)) then MarkX else MarkO)
        = nextTurn (board (game (play (startNewGame s0) idxs)))
   \<and> (accepted s idx \<longrightarrow>
        xIsNext (game (handleMove_settled s idx)) = (\<not> xIsNext (game s))
        \<and> occupied (board (game (handleMove_settled s idx))) = Suc (occupied (board (game s))))
   \<and> (\<not> accepted s idx \<longrightarrow> handleMove_settled s idx = s)"
proof -
  have inv: "xIsNext (game (play (startNewGame s0) idxs))
        = even (occupied (board (game (play (startNewGame s0) idxs))))"
    by (rule play_parity) (simp add: fresh_parity)
  have nt: "(if xIsNext (game (play (startNewGame s0) idxs)) then MarkX else MarkO)
        = nextTurn (board (game (play (startNewGame s0) idxs)))"
    unfolding inv by (simp add: nextTurn_def occupied_def even_iff_mod_2_eq_zero)
  show ?thesis
    using inv nt fresh_parity [of s0] accepted_step [of s idx] not_accepted_settled [of s idx]
    by blast
qed

theorem turn_follows_board_parity_witness:
  "list_all (\<lambda>i. i < 9) [4, 0, 8 :: nat] \<and> (4::nat) < 9
   \<and> accepted (startNewGame initialApp) 4
   \<and> xIsNext (game (startNewGame initialApp)) = True
   \<and> xIsNext (game (handleMove_settled (startNewGame initialApp) 4)) = False
   \<and> occupied (board (game (handleMove_settled (startNewGame initialApp) 4))) = Suc 0
   \<and> nextTurn (board (game (play (startNewGame initialApp) [4, 0, 8]))) = MarkO
   \<and> xIsNext (game (play (startNewGame initialApp) [4, 0, 8])) = False
   \<and> \<not> accepted (play (startNewGame initialApp) [4]) 4
   \<and> handleMove_settled (play (startNewGame initialApp) [4]) 4 = play (startNewGame initialApp) [4]"
proof -
  have b1: "\<forall>i \<in> set [4, 0, 8 :: nat]. i < 9" and b2: "(4::nat) < 9" by simp_all
  have b1': "list_all (\<lambda>i. i < 9) [4, 0, 8 :: nat]" by simp
  have a: "accepted (startNewGame initialApp) 4" by code_simp
  have x: "xIsNext (game (startNewGame initialApp)) = True" by code_simp
  have o: "occupied (board (game (startNewGame initialApp))) = 0" by code_simp
  have n: "nextTurn (board (game (play (startNewGame initialApp) [4, 0, 8]))) = MarkO" by code_simp
  have r: "\<not> accepted (play (startNewGame initialApp) [4]) 4" by code_simp
  from turn_follows_board_parity [OF b1 b2, of initialApp "startNewGame initialApp"] a x o
  have step: "xIsNext (game (handleMove_settled (startNewGame initialApp) 4)) = False
      \<and> occupied (board (game (handleMove_settled (startNewGame initialApp) 4))) = Suc 0"
    by simp
  from turn_follows_board_parity [OF b1 b2, of initialApp "play (startNewGame initialApp) [4]"] n
  have turn: "xIsNext (game (play (startNewGame initialApp) [4, 0, 8])) = False"
    by (metis mark.distinct(1))
  from turn_follows_board_parity [OF b1 b2, of initialApp "play (startNewGame initialApp) [4]"] r
  have rej: "handleMove_settled (play (startNewGame initialApp) [4]) 4 = play (startNewGame initialApp) [4]"
    by blast
  from b1' b2 a x step n turn r rej show ?thesis by blast
qed

section \<open>The computer's move\<close>

lemma map_filter_enumerate:
  "List.map_filter
     (\<lambda>(idx, slot). case slot of None \<Rightarrow> None | Some c \<Rightarrow> if truthy c then None else Some idx)
     (enumerate n b)
   = filter (\<lambda>i. case b ! (i - n) of None \<Rightarrow> False | Some c \<Rightarrow> \<not> truthy c) [n..<n + length b]"
proof (induction b arbitrary: n)
  case Nil
  show ?case by (simp add: map_filter_simps)
next
  case (Cons x xs)
  define rest where "rest = [Suc n..<Suc n + length xs]"
  have upt: "[n..<n + length (x # xs)] = n # rest"
    unfolding rest_def using upt_conv_Cons [of n "n + length (x # xs)"] by (simp del: upt_Suc)
  have tl: "filter (\<lambda>i. case (x # xs) ! (i - n) of None \<Rightarrow> False | Some c \<Rightarrow> \<not> truthy c) rest
          = filter (\<lambda>i. case xs ! (i - Suc n) of None \<Rightarrow> False | Some c \<Rightarrow> \<not> truthy c) rest"
  proof (rule filter_cong [OF refl])
    fix i
    assume "i \<in> set rest"
    then have "Suc n \<le> i" by (simp add: rest_def del: upt_Suc)
    then have "i - n = Suc (i - Suc n)" by simp
    then show "(case (x # xs) ! (i - n) of None \<Rightarrow> False | Some c \<Rightarrow> \<not> truthy c)
             = (case xs ! (i - Suc n) of None \<Rightarrow> False | Some c \<Rightarrow> \<not> truthy c)"
      by simp
  qed
  have ih: "List.map_filter
     (\<lambda>(idx, slot). case slot of None \<Rightarrow> None | Some c \<Rightarrow> if truthy c then None else Some idx)
     (enumerate (Suc n) xs)
     = filter (\<lambda>i. case xs ! (i - Suc n) of None \<Rightarrow> False | Some c \<Rightarrow> \<not> truthy c) rest"
    unfolding rest_def by (rule Cons.IH)
  show ?case
    unfolding upt by (simp add: map_filter_simps tl ih split: option.splits)
qed

lemma getAvailableMoves_filter: "getAvailableMoves b = filter (legal b) [0..<length b]"
proof -
  have "getAvailableMoves b
      = filter (\<lambda>i. case b ! i of None \<Rightarrow> False | Some c \<Rightarrow> \<not> truthy c) [0..<length b]"
    using map_filter_enumerate [of 0 b] by (simp add: getAvailableMoves_def)
  also have "\<dots> = filter (legal b) [0..<length b]"
    by (rule filter_cong) (auto simp: legal_def)
  finally show ?thesis .
qed

lemma getAvailableMoves_sorted: "sorted_wrt (<) (getAvailableMoves b)"
  by (simp add: getAvailableMoves_filter sorted_wrt_filter)

lemma getAvailableMoves_set: "i \<in> set (getAvailableMoves b) \<longleftrightarrow> legal b i"
  by (auto simp: getAvailableMoves_filter legal_def)

lemma getAvailableMoves_distinct: "distinct (getAvailableMoves b)"
  by (simp add: getAvailableMoves_filter)

lemma try_moves_find: "try_moves m b ms = find (wins m b) ms"
  by (induction ms) (simp_all add: wins_def slice_def)

lemma find_least:
  assumes "sorted_wrt (<) xs" and "x \<in> set xs" and "P x"
    and "\<forall>j \<in> set xs. P j \<longrightarrow> x \<le> (j::nat)"
  shows "find P xs = Some x"
  using assms
proof (induction xs)
  case Nil
  then show ?case by simp
next
  case (Cons y ys)
  show ?case
  proof (cases "P y")
    case True
    with Cons.prems have "x \<le> y" by simp
    moreover have "x = y \<or> y < x" using Cons.prems(1,2) by auto
    ultimately have "x = y" by auto
    with True show ?thesis by simp
  next
    case False
    with Cons.prems have "x \<in> set ys" by auto
    with Cons False show ?thesis by simp
  qed
qed

lemma find_is_least:
  assumes "sorted_wrt (<) xs" and "find P xs = Some x"
  shows "x \<in> set xs \<and> P x \<and> (\<forall>j \<in> set xs. P j \<longrightarrow> x \<le> (j::nat))"
  using assms
proof (induction xs)
  case Nil
  then show ?case by simp
next
  case (Cons y ys)
  show ?case
  proof (cases "P y")
    case True
    with Cons.prems show ?thesis by (auto intro: less_imp_le)
  next
    case False
    with Cons show ?thesis by auto
  qed
qed

lemma least_winning_find:
  "find (wins m b) (getAvailableMoves b) = Some i \<longleftrightarrow> least_winning m b i"
proof
  assume "find (wins m b) (getAvailableMoves b) = Some i"
  from find_is_least [OF getAvailableMoves_sorted this] show "least_winning m b i"
    by (simp add: least_winning_def)
next
  assume "least_winning m b i"
  then show "find (wins m b) (getAvailableMoves b) = Some i"
    unfolding least_winning_def
    by (intro find_least getAvailableMoves_sorted) auto
qed

lemma no_win_find:
  "find (wins m b) (getAvailableMoves b) = None
   \<longleftrightarrow> (\<forall>j \<in> set (getAvailableMoves b). \<not> wins m b j)"
  by (auto simp: find_None_iff)

lemma round_ties_even_upper: "of_int (round_ties_even y) \<le> y + 1 / 2"
  unfolding round_ties_even_def Let_def by (simp; linarith)

lemma round_ties_even_lower: "y - 1 / 2 \<le> of_int (round_ties_even y)"
  unfolding round_ties_even_def Let_def by (simp; linarith)

lemma round_ties_even_ge_floor: "\<lfloor>y\<rfloor> \<le> round_ties_even y"
  unfolding round_ties_even_def Let_def by simp

lemma round_ties_even_ge_int:
  assumes "of_int m \<le> y"
  shows "m \<le> round_ties_even y"
proof -
  from assms have "m \<le> \<lfloor>y\<rfloor>" by (simp add: le_floor_iff)
  with round_ties_even_ge_floor [of y] show ?thesis by linarith
qed

lemma ulp_pos: "0 < ulp x"
  by (simp add: ulp_def)

lemma ulp_ge1:
  assumes "1 \<le> x"
  shows "ulp x \<le> x / 2 ^ 52"
proof -
  let ?m = "nat \<lfloor>x\<rfloor>"
  have m: "0 < ?m" using assms by simp
  have "2 ^ (floorlog 2 ?m - 1) \<le> ?m"
    using floorlog_bounds [of ?m 2] m by simp
  moreover have "floorlog 2 ?m \<noteq> 0" using m by (simp add: floorlog_eq_zero_iff)
  ultimately have "2 ^ floorlog 2 ?m \<le> 2 * ?m"
    by (cases "floorlog 2 ?m") simp_all
  then have "(2::real) ^ floorlog 2 ?m \<le> 2 * real ?m"
    by (metis of_nat_le_iff of_nat_mult of_nat_numeral of_nat_power)
  also have "real ?m \<le> x" using assms by simp
  finally have "(2::real) ^ floorlog 2 ?m \<le> 2 * x" by simp
  then show ?thesis using assms by (simp add: ulp_def field_simps)
qed

lemma ulp_lt1:
  assumes "0 < x" and "x < 1"
  shows "ulp x \<le> 1 / 2 ^ 53"
proof -
  let ?k = "floorlog 2 (nat (\<lceil>1 / x\<rceil> - 1))"
  have "1 < 1 / x" using assms by simp
  then have "2 \<le> \<lceil>1 / x\<rceil>" by linarith
  then have "0 < nat (\<lceil>1 / x\<rceil> - 1)" by simp
  then have "?k \<noteq> 0" using floorlog_eq_zero_iff [of 2 "nat (\<lceil>1 / x\<rceil> - 1)"] by simp
  then have "1 \<le> ?k" by simp
  then have "53 \<le> min ?k 1022 + 52" by simp
  then have "(2::real) ^ 53 \<le> 2 ^ (min ?k 1022 + 52)"
    by (rule power_increasing) simp
  then show ?thesis using assms by (simp add: ulp_def frac_le)
qed

lemma round_double_pos:
  "0 < x \<Longrightarrow> round_double x = ulp x * of_int (round_ties_even (x / ulp x))"
  by (simp add: round_double_def)

lemma round_double_upper:
  assumes "0 < x"
  shows "round_double x \<le> x + ulp x / 2"
proof -
  have "ulp x * of_int (round_ties_even (x / ulp x)) \<le> ulp x * (x / ulp x + 1 / 2)"
    using round_ties_even_upper [of "x / ulp x"] ulp_pos [of x] by (simp add: mult_left_mono)
  also have "\<dots> = x + ulp x / 2"
    using ulp_pos [of x] by (simp add: field_simps)
  finally show ?thesis using assms by (simp add: round_double_pos)
qed

lemma round_double_lower:
  assumes "0 < x"
  shows "x - ulp x / 2 \<le> round_double x"
proof -
  have "ulp x * (x / ulp x - 1 / 2) \<le> ulp x * of_int (round_ties_even (x / ulp x))"
    using round_ties_even_lower [of "x / ulp x"] ulp_pos [of x] by (simp add: mult_left_mono)
  moreover have "ulp x * (x / ulp x - 1 / 2) = x - ulp x / 2"
    using ulp_pos [of x] by (simp add: field_simps)
  ultimately show ?thesis using assms by (simp add: round_double_pos)
qed

lemma round_double_nonneg:
  assumes "0 \<le> x"
  shows "0 \<le> round_double x"
proof (cases "x = 0")
  case True
  then show ?thesis by (simp add: round_double_def)
next
  case False
  with assms have pos: "0 < x" by simp
  have "0 \<le> x / ulp x" using pos ulp_pos [of x] by simp
  then have "0 \<le> round_ties_even (x / ulp x)"
    using round_ties_even_ge_int [of 0 "x / ulp x"] by simp
  then show ?thesis using pos ulp_pos [of x] by (simp add: round_double_pos)
qed

lemma round_double_ge_nat:
  assumes "0 \<le> x" and "x < 2 ^ 53" and "real j \<le> x"
  shows "real j \<le> round_double x"
proof (cases "1 \<le> x")
  case False
  with assms(3) have "j = 0" by simp
  then show ?thesis using round_double_nonneg [OF assms(1)] by simp
next
  case True
  let ?m = "nat \<lfloor>x\<rfloor>"
  let ?fl = "floorlog 2 ?m"
  have "\<lfloor>x\<rfloor> < 2 ^ 53" using assms(2) by (simp add: floor_less_iff)
  then have "?m < 2 ^ 53" using True by (simp add: nat_less_iff)
  then have fl: "?fl \<le> 53" by (simp add: floorlog_le_iff)
  have u: "ulp x = 1 / 2 ^ (53 - ?fl)"
    using True fl by (simp add: ulp_def power_diff)
  have "real j / ulp x = of_int (int j * 2 ^ (53 - ?fl))"
    by (simp add: u)
  moreover have "real j / ulp x \<le> x / ulp x"
    using assms(3) ulp_pos [of x] by (simp add: divide_right_mono)
  ultimately have "int j * 2 ^ (53 - ?fl) \<le> round_ties_even (x / ulp x)"
    using round_ties_even_ge_int [of "int j * 2 ^ (53 - ?fl)" "x / ulp x"] by simp
  then have "real_of_int (int j * 2 ^ (53 - ?fl)) \<le> of_int (round_ties_even (x / ulp x))"
    by (simp only: of_int_le_iff)
  then have a: "ulp x * real_of_int (int j * 2 ^ (53 - ?fl))
      \<le> ulp x * of_int (round_ties_even (x / ulp x))"
    using ulp_pos [of x] by (intro mult_left_mono) simp_all
  have b: "ulp x * real_of_int (int j * 2 ^ (53 - ?fl)) = real j"
    by (simp add: u)
  have c: "round_double x = ulp x * of_int (round_ties_even (x / ulp x))"
    using True by (simp add: round_double_pos)
  from a show ?thesis unfolding b c .
qed

lemma round_double_error:
  assumes "0 \<le> x"
  shows "round_double x \<le> x + max (x / 2 ^ 53) (1 / 2 ^ 54)"
    and "x - max (x / 2 ^ 53) (1 / 2 ^ 54) \<le> round_double x"
proof -
  have "round_double x \<le> x + max (x / 2 ^ 53) (1 / 2 ^ 54)
      \<and> x - max (x / 2 ^ 53) (1 / 2 ^ 54) \<le> round_double x"
  proof (cases "x = 0")
    case True
    then show ?thesis by (simp add: round_double_def)
  next
    case False
    with assms have pos: "0 < x" by simp
    have "ulp x / 2 \<le> max (x / 2 ^ 53) (1 / 2 ^ 54)"
    proof (cases "1 \<le> x")
      case True
      from ulp_ge1 [OF True] have "ulp x / 2 \<le> x / 2 ^ 53" by simp
      then show ?thesis by simp
    next
      case False
      then have "x < 1" by simp
      from ulp_lt1 [OF pos this] have "ulp x / 2 \<le> 1 / 2 ^ 54" by simp
      then show ?thesis by simp
    qed
    with round_double_upper [OF pos] round_double_lower [OF pos] show ?thesis by linarith
  qed
  then show "round_double x \<le> x + max (x / 2 ^ 53) (1 / 2 ^ 54)"
    and "x - max (x / 2 ^ 53) (1 / 2 ^ 54) \<le> round_double x" by simp_all
qed

lemma random_index_eqI:
  assumes "real k \<le> round_double (r * real n)" and "round_double (r * real n) < real k + 1"
  shows "random_index r n = k"
proof -
  have "\<lfloor>round_double (r * real n)\<rfloor> = int k"
    using assms by (simp add: floor_eq_iff)
  then show ?thesis by (simp add: random_index_def)
qed

lemma random_index_eqD:
  assumes "0 \<le> r" and "random_index r n = k"
  shows "real k \<le> round_double (r * real n) \<and> round_double (r * real n) < real k + 1"
proof -
  have "0 \<le> round_double (r * real n)"
    using assms(1) by (intro round_double_nonneg) simp
  then have "0 \<le> \<lfloor>round_double (r * real n)\<rfloor>" by simp
  moreover have "nat \<lfloor>round_double (r * real n)\<rfloor> = k"
    using assms(2) by (simp add: random_index_def)
  ultimately have "\<lfloor>round_double (r * real n)\<rfloor> = int k" by linarith
  then show ?thesis by (simp add: floor_eq_iff)
qed

lemma draw_product_bound:
  assumes "0 \<le> r" and "r \<le> 1 - 1 / 2 ^ 53" and "0 < n"
  shows "0 \<le> r * real n" and "r * real n \<le> real n - real n / 2 ^ 53"
proof -
  show "0 \<le> r * real n" using assms by simp
  have "r * real n \<le> (1 - 1 / 2 ^ 53) * real n"
    using assms by (intro mult_right_mono) simp_all
  then show "r * real n \<le> real n - real n / 2 ^ 53" by (simp add: algebra_simps)
qed

lemma random_index_less:
  assumes "0 \<le> r" and "r \<le> 1 - 1 / 2 ^ 53" and "0 < n"
  shows "random_index r n < n"
proof -
  let ?x = "r * real n"
  note b = draw_product_bound [OF assms]
  have n1: "1 \<le> real n" using assms(3) by simp
  have "round_double ?x < real n"
  proof (cases "?x / 2 ^ 53 \<le> 1 / 2 ^ 54")
    case True
    then have "round_double ?x \<le> ?x + 1 / 2 ^ 54"
      using round_double_error(1) [OF b(1)] by (simp add: max_def split: if_splits)
    also have "\<dots> \<le> real n - real n / 2 ^ 53 + 1 / 2 ^ 54" using b(2) by simp
    also have "\<dots> < real n" using n1 by simp
    finally show ?thesis .
  next
    case False
    then have "round_double ?x \<le> ?x + ?x / 2 ^ 53"
      using round_double_error(1) [OF b(1)] by (simp add: max_def split: if_splits)
    also have "\<dots> = ?x * (1 + 1 / 2 ^ 53)" by (simp add: algebra_simps)
    also have "\<dots> \<le> (real n - real n / 2 ^ 53) * (1 + 1 / 2 ^ 53)"
      using b(2) by (intro mult_right_mono) simp_all
    also have "\<dots> = real n * (1 - 1 / 2 ^ 106)" by (simp add: algebra_simps)
    also have "\<dots> < real n" using n1 by simp
    finally show ?thesis .
  qed
  moreover have "0 \<le> round_double ?x" by (rule round_double_nonneg [OF b(1)])
  ultimately have "\<lfloor>round_double ?x\<rfloor> < int n" and "0 \<le> \<lfloor>round_double ?x\<rfloor>"
    by (simp_all add: floor_less_iff)
  then show ?thesis by (simp add: random_index_def nat_less_iff)
qed

lemma random_index_inner:
  assumes r: "0 \<le> r" "r \<le> 1 - 1 / 2 ^ 53" and n: "0 < n" "n \<le> 2 ^ 53"
    and lo: "real k / real n \<le> r" and hi: "r < real (Suc k) / real n - 1 / 2 ^ 53"
  shows "random_index r n = k"
proof (rule random_index_eqI)
  let ?x = "r * real n"
  note b = draw_product_bound [OF r n(1)]
  have npos: "0 < real n" using n(1) by simp
  have n53: "real n \<le> 2 ^ 53" using n(2) by (metis of_nat_le_iff of_nat_numeral of_nat_power)
  have klo: "real k \<le> ?x" using lo npos by (simp add: pos_divide_le_eq)
  have khi: "?x < real k + 1 - real n / 2 ^ 53"
  proof -
    have "?x < (real (Suc k) / real n - 1 / 2 ^ 53) * real n"
      using hi npos by (intro mult_strict_right_mono) simp_all
    also have "\<dots> = real k + 1 - real n / 2 ^ 53" using npos by (simp add: field_simps)
    finally show ?thesis .
  qed
  have "?x < 2 ^ 53" using b(2) n53 npos by (smt (verit) divide_pos_pos zero_less_numeral zero_less_power)
  from round_double_ge_nat [OF b(1) this klo] show "real k \<le> round_double ?x" .
  have xn: "?x \<le> real n" using b(2) npos by (smt (verit) divide_nonneg_nonneg zero_le_numeral zero_le_power of_nat_0_le_iff)
  have "?x / 2 ^ 53 \<le> real n / 2 ^ 53" using xn by (intro divide_right_mono) simp_all
  moreover have "1 / 2 ^ 54 \<le> real n / 2 ^ 53"
  proof -
    have "1 / 2 ^ 54 \<le> 1 / (2::real) ^ 53" by simp
    also have "\<dots> \<le> real n / 2 ^ 53" using n(1) by (intro divide_right_mono) simp_all
    finally show ?thesis .
  qed
  ultimately have "max (?x / 2 ^ 53) (1 / 2 ^ 54) \<le> real n / 2 ^ 53"
    by (rule max.boundedI)
  with round_double_error(1) [OF b(1)] khi show "round_double ?x < real k + 1" by linarith
qed

lemma random_index_outer:
  assumes r: "0 \<le> r" "r \<le> 1 - 1 / 2 ^ 53" and n: "0 < n" "n \<le> 2 ^ 53"
    and k: "random_index r n = k"
  shows "real k / real n - 1 / 2 ^ 53 \<le> r \<and> r < real (Suc k) / real n"
proof -
  let ?x = "r * real n"
  note b = draw_product_bound [OF r n(1)]
  note rk = random_index_eqD [OF r(1) k]
  have npos: "0 < real n" using n(1) by simp
  have n53: "real n \<le> 2 ^ 53" using n(2) by (metis of_nat_le_iff of_nat_numeral of_nat_power)
  have x53: "?x < 2 ^ 53" using b(2) n53 npos by (smt (verit) divide_pos_pos zero_less_numeral zero_less_power)
  have xn: "?x \<le> real n" using b(2) npos by (smt (verit) divide_nonneg_nonneg zero_le_numeral zero_le_power of_nat_0_le_iff)
  have up: "?x < real (Suc k)"
  proof (rule ccontr)
    assume "\<not> ?x < real (Suc k)"
    then have "real (Suc k) \<le> ?x" by simp
    from round_double_ge_nat [OF b(1) x53 this] rk show False by simp
  qed
  have "?x / 2 ^ 53 \<le> real n / 2 ^ 53" using xn by (intro divide_right_mono) simp_all
  moreover have "1 / 2 ^ 54 \<le> real n / 2 ^ 53"
  proof -
    have "1 / 2 ^ 54 \<le> 1 / (2::real) ^ 53" by simp
    also have "\<dots> \<le> real n / 2 ^ 53" using n(1) by (intro divide_right_mono) simp_all
    finally show ?thesis .
  qed
  ultimately have "max (?x / 2 ^ 53) (1 / 2 ^ 54) \<le> real n / 2 ^ 53"
    by (rule max.boundedI)
  with round_double_error(1) [OF b(1)] rk have lo: "real k - real n / 2 ^ 53 \<le> ?x" by linarith
  have "real k / real n - 1 / 2 ^ 53 = (real k - real n / 2 ^ 53) / real n"
    using npos by (simp add: field_simps)
  also have "\<dots> \<le> ?x / real n" using lo npos by (intro divide_right_mono) simp_all
  also have "\<dots> = r" using npos by simp
  finally have l: "real k / real n - 1 / 2 ^ 53 \<le> r" .
  have "r = ?x / real n" using npos by simp
  also have "\<dots> < real (Suc k) / real n" using up npos by (intro divide_strict_right_mono) simp_all
  finally have u: "r < real (Suc k) / real n" .
  from l u show ?thesis ..
qed

lemma random_index_zero: "random_index 0 n = 0"
  by (simp add: random_index_def round_double_def)

lemma random_index_half:
  assumes "2 \<le> n" and "n \<le> 2 ^ 53"
  shows "1 \<le> random_index (1 / 2) n"
proof -
  let ?x = "1 / 2 * real n"
  have n53: "real n \<le> 2 ^ 53" using assms(2) by (metis of_nat_le_iff of_nat_numeral of_nat_power)
  have "0 \<le> ?x" and "?x < 2 ^ 53" and "real 1 \<le> ?x" using assms(1) n53 by simp_all
  from round_double_ge_nat [OF this] have "1 \<le> \<lfloor>round_double ?x\<rfloor>" by (simp add: le_floor_iff)
  then show ?thesis unfolding random_index_def by linarith
qed

lemma bestAIMove_find:
  "bestAIMove r b =
     (case find (wins MarkO b) (getAvailableMoves b) of
        Some idx \<Rightarrow> Some idx
      | None \<Rightarrow>
          (case find (wins MarkX b) (getAvailableMoves b) of
             Some idx \<Rightarrow> Some idx
           | None \<Rightarrow> getRandomMove r b))"
  by (simp add: bestAIMove_def try_moves_find Let_def cong: option.case_cong)

lemma bestAIMove_win:
  "least_winning MarkO b i \<Longrightarrow> bestAIMove r b = Some i"
  by (simp add: bestAIMove_find least_winning_find [symmetric])

lemma bestAIMove_block:
  "\<forall>j \<in> set (getAvailableMoves b). \<not> wins MarkO b j \<Longrightarrow> least_winning MarkX b i
   \<Longrightarrow> bestAIMove r b = Some i"
  by (simp add: bestAIMove_find least_winning_find [symmetric] no_win_find [symmetric])

lemma bestAIMove_fallback:
  "\<forall>j \<in> set (getAvailableMoves b). \<not> wins MarkO b j \<and> \<not> wins MarkX b j
   \<Longrightarrow> bestAIMove r b = getRandomMove r b"
proof -
  assume a: "\<forall>j \<in> set (getAvailableMoves b). \<not> wins MarkO b j \<and> \<not> wins MarkX b j"
  then have "find (wins MarkO b) (getAvailableMoves b) = None"
    and "find (wins MarkX b) (getAvailableMoves b) = None"
    by (simp_all add: no_win_find)
  then show ?thesis by (simp add: bestAIMove_find)
qed

lemma getRandomMove_pick:
  "getAvailableMoves b \<noteq> [] \<Longrightarrow>
   getRandomMove r b
     = Some (getAvailableMoves b ! random_index r (length (getAvailableMoves b)))"
  by (simp add: getRandomMove_def Let_def)

lemma least_winning_exists:
  assumes "\<exists>j \<in> set (getAvailableMoves b). wins m b j"
  shows "\<exists>i. least_winning m b i"
proof -
  from assms have "find (wins m b) (getAvailableMoves b) \<noteq> None"
    by (simp add: no_win_find)
  then show ?thesis
    using least_winning_find [of m b] by auto
qed

lemma bestAIMove_None: "bestAIMove r b = None \<longleftrightarrow> getAvailableMoves b = []"
proof (cases "getAvailableMoves b = []")
  case True
  then show ?thesis by (simp add: bestAIMove_find getRandomMove_def)
next
  case False
  then show ?thesis
    by (simp add: bestAIMove_find getRandomMove_pick split: option.splits)
qed

text \<open>
  C3: \<^verbatim>\<open>getAvailableMoves\<close> lists the legal moves in ascending order. For a draw \<open>r\<close> of
  \<^verbatim>\<open>Math.random()\<close> (a double, so \<open>0 \<le> r \<le> 1 - 1 / 2 ^ 53\<close>), \<^verbatim>\<open>bestAIMove\<close> returns the
  least-index legal move that wins for \<^verbatim>\<open>"O"\<close> (one exists as soon as any legal move
  wins for \<^verbatim>\<open>"O"\<close>); failing that, the least-index legal move that would win for \<^verbatim>\<open>"X"\<close>;
  failing that, a legal move, the one at position \<^verbatim>\<open>Math.floor(r * n)\<close> of the \<open>n\<close> legal
  moves. The choice is uniform in the draw up to the rounding of the product: the move at
  position \<open>k\<close> is returned for every draw in \<open>[k / n, (k + 1) / n - 1 / 2 ^ 53)\<close> and only
  for draws in \<open>[k / n - 1 / 2 ^ 53, (k + 1) / n)\<close>. It returns \<^verbatim>\<open>null\<close> exactly when there
  is no legal move.
\<close>

theorem bestAIMove_priority:
  assumes "0 \<le> r" and "r \<le> 1 - 1 / 2 ^ 53"
  shows "sorted_wrt (<) (getAvailableMoves b)
     \<and> (\<forall>i. i \<in> set (getAvailableMoves b) \<longleftrightarrow> legal b i)
     \<and> ((\<exists>j \<in> set (getAvailableMoves b). wins MarkO b j) \<longrightarrow> (\<exists>i. least_winning MarkO b i))
     \<and> (least_winning MarkO b i \<longrightarrow> bestAIMove r b = Some i)
     \<and> ((\<exists>j \<in> set (getAvailableMoves b). wins MarkX b j) \<longrightarrow> (\<exists>i. least_winning MarkX b i))
     \<and> ((\<forall>j \<in> set (getAvailableMoves b). \<not> wins MarkO b j) \<and> least_winning MarkX b i
          \<longrightarrow> bestAIMove r b = Some i)
     \<and> ((\<forall>j \<in> set (getAvailableMoves b). \<not> wins MarkO b j \<and> \<not> wins MarkX b j)
          \<and> getAvailableMoves b \<noteq> []
          \<longrightarrow> random_index r (length (getAvailableMoves b)) < length (getAvailableMoves b)
            \<and> bestAIMove r b
                = Some (getAvailableMoves b ! random_index r (length (getAvailableMoves b)))
            \<and> (\<exists>i. bestAIMove r b = Some i \<and> legal b i)
            \<and> (length (getAvailableMoves b) \<le> 2 ^ 53 \<longrightarrow>
                (\<forall>k < length (getAvailableMoves b).
                  (real k / real (length (getAvailableMoves b)) \<le> r
                     \<and> r < real (Suc k) / real (length (getAvailableMoves b)) - 1 / 2 ^ 53
                   \<longrightarrow> bestAIMove r b = Some (getAvailableMoves b ! k))
                  \<and> (bestAIMove r b = Some (getAvailableMoves b ! k)
                   \<longrightarrow> real k / real (length (getAvailableMoves b)) - 1 / 2 ^ 53 \<le> r
                     \<and> r < real (Suc k) / real (length (getAvailableMoves b))))))
     \<and> (bestAIMove r b = None \<longleftrightarrow> getAvailableMoves b = [])"
proof -
  let ?ms = "getAvailableMoves b"
  let ?n = "length ?ms"
  have fallback: "random_index r ?n < ?n
            \<and> bestAIMove r b = Some (?ms ! random_index r ?n)
            \<and> (\<exists>i. bestAIMove r b = Some i \<and> legal b i)
            \<and> (?n \<le> 2 ^ 53 \<longrightarrow>
                (\<forall>k < ?n.
                  (real k / real ?n \<le> r \<and> r < real (Suc k) / real ?n - 1 / 2 ^ 53
                   \<longrightarrow> bestAIMove r b = Some (?ms ! k))
                  \<and> (bestAIMove r b = Some (?ms ! k)
                   \<longrightarrow> real k / real ?n - 1 / 2 ^ 53 \<le> r \<and> r < real (Suc k) / real ?n)))"
    if none: "\<forall>j \<in> set ?ms. \<not> wins MarkO b j \<and> \<not> wins MarkX b j" and ne: "?ms \<noteq> []"
  proof -
    have pos: "0 < ?n" using ne by simp
    have lt: "random_index r ?n < ?n"
      by (rule random_index_less [OF assms pos])
    have eq: "bestAIMove r b = Some (?ms ! random_index r ?n)"
      by (simp add: bestAIMove_fallback [OF none] getRandomMove_pick [OF ne])
    have "?ms ! random_index r ?n \<in> set ?ms" using lt by simp
    then have leg: "\<exists>i. bestAIMove r b = Some i \<and> legal b i"
      using eq by (simp add: getAvailableMoves_set)
    have inner: "bestAIMove r b = Some (?ms ! k)"
      if "?n \<le> 2 ^ 53" and "real k / real ?n \<le> r"
        and "r < real (Suc k) / real ?n - 1 / 2 ^ 53" for k
      using random_index_inner [OF assms pos that] eq by simp
    have outer: "real k / real ?n - 1 / 2 ^ 53 \<le> r \<and> r < real (Suc k) / real ?n"
      if le: "?n \<le> 2 ^ 53" and k: "k < ?n" and res: "bestAIMove r b = Some (?ms ! k)" for k
    proof -
      have "random_index r ?n = k"
        using res nth_eq_iff_index_eq [OF getAvailableMoves_distinct lt k] unfolding eq by simp
      from random_index_outer [OF assms pos le this] show ?thesis .
    qed
    from lt eq leg inner outer show ?thesis by blast
  qed
  show ?thesis
    using getAvailableMoves_sorted [of b] getAvailableMoves_set [of _ b]
      least_winning_exists [of b MarkO] least_winning_exists [of b MarkX]
      bestAIMove_win [of b i r] bestAIMove_block [of b i r] fallback bestAIMove_None [of r b]
    by blast
qed

theorem bestAIMove_priority_witness:
  "(0::real) \<le> 1 / 2 \<and> (1 / 2 ::real) \<le> 1 - 1 / 2 ^ 53
   \<and> board (game (play (startNewGame initialApp) [0, 3, 1, 4, 8]))
       = [Some (Str MarkX), Some (Str MarkX), Some Null,
          Some (Str MarkO), Some (Str MarkO), Some Null,
          Some Null, Some Null, Some (Str MarkX)]
   \<and> least_winning MarkO (board (game (play (startNewGame initialApp) [0, 3, 1, 4, 8]))) 5
   \<and> wins MarkX (board (game (play (startNewGame initialApp) [0, 3, 1, 4, 8]))) 2
   \<and> bestAIMove (1 / 2) (board (game (play (startNewGame initialApp) [0, 3, 1, 4, 8]))) = Some 5
   \<and> list_all (\<lambda>j. \<not> wins MarkO (board (game (play (startNewGame initialApp) [0, 4, 1]))) j)
        (getAvailableMoves (board (game (play (startNewGame initialApp) [0, 4, 1]))))
   \<and> least_winning MarkX (board (game (play (startNewGame initialApp) [0, 4, 1]))) 2
   \<and> bestAIMove (1 / 2) (board (game (play (startNewGame initialApp) [0, 4, 1]))) = Some 2
   \<and> getAvailableMoves (board (game (play (startNewGame initialApp) [0, 4, 8])))
       = [1, 2, 3, 5, 6, 7]
   \<and> list_all (\<lambda>j. \<not> wins MarkO (board (game (play (startNewGame initialApp) [0, 4, 8]))) j
                  \<and> \<not> wins MarkX (board (game (play (startNewGame initialApp) [0, 4, 8]))) j)
        (getAvailableMoves (board (game (play (startNewGame initialApp) [0, 4, 8]))))
   \<and> bestAIMove (1 / 2) (board (game (play (startNewGame initialApp) [0, 4, 8]))) = Some 5
   \<and> (0::real) \<le> 7505999378950826 / 2 ^ 53
   \<and> (7505999378950826 / 2 ^ 53 ::real) \<le> 1 - 1 / 2 ^ 53
   \<and> random_index (7505999378950826 / 2 ^ 53) 6 = 5
   \<and> bestAIMove (7505999378950826 / 2 ^ 53)
        (board (game (play (startNewGame initialApp) [0, 4, 8]))) = Some 7"
proof -
  let ?w = "board (game (play (startNewGame initialApp) [0, 3, 1, 4, 8]))"
  let ?k = "board (game (play (startNewGame initialApp) [0, 4, 1]))"
  let ?f = "board (game (play (startNewGame initialApp) [0, 4, 8]))"
  let ?q = "7505999378950826 / 2 ^ 53 :: real"
  have r0: "(0::real) \<le> 1 / 2" and r1: "(1 / 2 ::real) \<le> 1 - 1 / 2 ^ 53" by simp_all
  have q0: "0 \<le> ?q" and q1: "?q \<le> 1 - 1 / 2 ^ 53" by simp_all
  have w0: "?w = [Some (Str MarkX), Some (Str MarkX), Some Null,
          Some (Str MarkO), Some (Str MarkO), Some Null,
          Some Null, Some Null, Some (Str MarkX)]" by code_simp
  have w1: "least_winning MarkO ?w 5" by code_simp
  have w2: "wins MarkX ?w 2" by code_simp
  have k1: "\<forall>j \<in> set (getAvailableMoves ?k). \<not> wins MarkO ?k j" by code_simp
  have k2: "least_winning MarkX ?k 2" by code_simp
  have f0: "getAvailableMoves ?f = [1, 2, 3, 5, 6, 7]" by code_simp
  have f1: "\<forall>j \<in> set (getAvailableMoves ?f). \<not> wins MarkO ?f j \<and> \<not> wins MarkX ?f j"
    by code_simp
  have f2: "getAvailableMoves ?f \<noteq> []" by code_simp
  have f3: "length (getAvailableMoves ?f) \<le> 2 ^ 53" unfolding f0 by simp
  have f4: "(3::nat) < length (getAvailableMoves ?f)" unfolding f0 by simp
  have f5: "real 3 / real (length (getAvailableMoves ?f)) \<le> 1 / 2
      \<and> 1 / 2 < real (Suc 3) / real (length (getAvailableMoves ?f)) - 1 / 2 ^ 53"
    unfolding f0 by simp
  have f6: "getAvailableMoves ?f ! 3 = 5" unfolding f0 by simp
  have q2: "random_index ?q 6 = 5" by code_simp
  have l6: "length (getAvailableMoves ?f) = 6" unfolding f0 by simp
  have q3: "getAvailableMoves ?f ! random_index ?q (length (getAvailableMoves ?f)) = 7"
    unfolding l6 q2 unfolding f0 by simp
  from bestAIMove_priority [OF r0 r1, of ?w 5] w1
  have w: "bestAIMove (1 / 2) ?w = Some 5" by blast
  from bestAIMove_priority [OF r0 r1, of ?k 2] k1 k2
  have k: "bestAIMove (1 / 2) ?k = Some 2" by blast
  from bestAIMove_priority [OF r0 r1, of ?f 0] f1 f2 f3 f4 f5
  have "bestAIMove (1 / 2) ?f = Some (getAvailableMoves ?f ! 3)" by blast
  with f6 have f: "bestAIMove (1 / 2) ?f = Some 5" by simp
  from bestAIMove_priority [OF q0 q1, of ?f 0] f1 f2
  have "bestAIMove ?q ?f
      = Some (getAvailableMoves ?f ! random_index ?q (length (getAvailableMoves ?f)))"
    by blast
  with q3 have q: "bestAIMove ?q ?f = Some 7" by simp
  from k1 have k1': "list_all (\<lambda>j. \<not> wins MarkO ?k j) (getAvailableMoves ?k)"
    by (simp add: list_all_iff)
  from f1 have f1': "list_all (\<lambda>j. \<not> wins MarkO ?f j \<and> \<not> wins MarkX ?f j) (getAvailableMoves ?f)"
    by (simp add: list_all_iff)
  from r0 r1 w0 w1 w2 w k1' k2 k f0 f1' f q0 q1 q2 q show ?thesis by blast
qed

text \<open>
  C9, as stated, fails for \<^verbatim>\<open>bestAIMove\<close> and \<^verbatim>\<open>getRandomMove\<close>: on the same empty board two
  draws of \<^verbatim>\<open>Math.random()\<close> give two different moves.
\<close>

theorem bestAIMove_random_counterexample:
  "bestAIMove 0 (replicate 9 (Some Null)) = Some 0
   \<and> bestAIMove (1 / 2) (replicate 9 (Some Null)) = Some 4
   \<and> bestAIMove 0 (replicate 9 (Some Null)) \<noteq> bestAIMove (1 / 2) (replicate 9 (Some Null))
   \<and> getRandomMove 0 (replicate 9 (Some Null)) \<noteq> getRandomMove (1 / 2) (replicate 9 (Some Null))"
  by code_simp

text \<open>
  C9, amended: every call other than \<^verbatim>\<open>getRandomMove\<close> and \<^verbatim>\<open>bestAIMove\<close> returns the same
  result whatever \<^verbatim>\<open>Math.random()\<close> would return. For two draws, \<^verbatim>\<open>getRandomMove\<close> returns
  the same result exactly when no legal move is left or both draws select the same
  position \<^verbatim>\<open>Math.floor(r * n)\<close> of the \<open>n\<close> legal moves; \<^verbatim>\<open>bestAIMove\<close> returns the same
  result exactly when, besides, some legal move wins for either mark. On a board with at
  least two legal moves (and at most \<open>2 ^ 53\<close>, as any array has), none of them winning
  for either mark, the draws \<open>0\<close> and \<open>1 / 2\<close> give different moves. A draw is a double
  \<open>r\<close> with \<open>0 \<le> r \<le> 1 - 1 / 2 ^ 53\<close>.
\<close>

theorem draw_dependence:
  assumes "0 \<le> r1" and "r1 \<le> 1 - 1 / 2 ^ 53" and "0 \<le> r2" and "r2 \<le> 1 - 1 / 2 ^ 53"
  shows "(\<not> calls_random c \<longrightarrow> run r1 c = run r2 c)
     \<and> (getRandomMove r1 b = getRandomMove r2 b \<longleftrightarrow>
          getAvailableMoves b = []
          \<or> random_index r1 (length (getAvailableMoves b))
              = random_index r2 (length (getAvailableMoves b)))
     \<and> (bestAIMove r1 b = bestAIMove r2 b \<longleftrightarrow>
          (\<exists>j \<in> set (getAvailableMoves b). wins MarkO b j \<or> wins MarkX b j)
          \<or> getAvailableMoves b = []
          \<or> random_index r1 (length (getAvailableMoves b))
              = random_index r2 (length (getAvailableMoves b)))
     \<and> ((\<forall>j \<in> set (getAvailableMoves b). \<not> wins MarkO b j \<and> \<not> wins MarkX b j)
          \<and> 2 \<le> length (getAvailableMoves b) \<and> length (getAvailableMoves b) \<le> 2 ^ 53
          \<longrightarrow> bestAIMove 0 b \<noteq> bestAIMove (1 / 2) b)"
proof -
  let ?ms = "getAvailableMoves b"
  let ?n = "length ?ms"
  have calls: "run r1 c = run r2 c" if "\<not> calls_random c"
    using that by (cases c) simp_all
  have rand: "getRandomMove r1 b = getRandomMove r2 b \<longleftrightarrow>
      ?ms = [] \<or> random_index r1 ?n = random_index r2 ?n"
  proof (cases "?ms = []")
    case True
    then show ?thesis by (simp add: getRandomMove_def)
  next
    case False
    then have pos: "0 < ?n" by simp
    have "?ms ! random_index r1 ?n = ?ms ! random_index r2 ?n
        \<longleftrightarrow> random_index r1 ?n = random_index r2 ?n"
      by (rule nth_eq_iff_index_eq [OF getAvailableMoves_distinct
            random_index_less [OF assms(1,2) pos] random_index_less [OF assms(3,4) pos]])
    then show ?thesis using False by (simp add: getRandomMove_pick)
  qed
  have best: "bestAIMove r1 b = bestAIMove r2 b \<longleftrightarrow>
      (\<exists>j \<in> set ?ms. wins MarkO b j \<or> wins MarkX b j)
      \<or> ?ms = [] \<or> random_index r1 ?n = random_index r2 ?n"
  proof (cases "\<exists>j \<in> set ?ms. wins MarkO b j \<or> wins MarkX b j")
    case True
    have "bestAIMove r1 b = bestAIMove r2 b"
    proof (cases "find (wins MarkO b) ?ms")
      case (Some i)
      then show ?thesis by (simp add: bestAIMove_find)
    next
      case None
      then have "\<forall>j \<in> set ?ms. \<not> wins MarkO b j" by (simp add: no_win_find)
      with True have "find (wins MarkX b) ?ms \<noteq> None"
        by (auto simp: find_None_iff)
      with None show ?thesis by (auto simp: bestAIMove_find)
    qed
    with True show ?thesis by simp
  next
    case False
    then have "\<forall>j \<in> set ?ms. \<not> wins MarkO b j \<and> \<not> wins MarkX b j" by blast
    then show ?thesis using False rand by (simp add: bestAIMove_fallback)
  qed
  have differ: "bestAIMove 0 b \<noteq> bestAIMove (1 / 2) b"
    if none: "\<forall>j \<in> set ?ms. \<not> wins MarkO b j \<and> \<not> wins MarkX b j"
      and two: "2 \<le> ?n" and le: "?n \<le> 2 ^ 53"
  proof -
    have ne: "?ms \<noteq> []" and pos: "0 < ?n" using two by auto
    have h: "(0::real) \<le> 1 / 2" "(1 / 2 ::real) \<le> 1 - 1 / 2 ^ 53" by simp_all
    have z: "(0::real) \<le> 0" "(0::real) \<le> 1 - 1 / 2 ^ 53" by simp_all
    have "random_index 0 ?n \<noteq> random_index (1 / 2) ?n"
      using random_index_zero [of ?n] random_index_half [OF two le] by simp
    moreover have "?ms ! random_index 0 ?n = ?ms ! random_index (1 / 2) ?n
        \<longleftrightarrow> random_index 0 ?n = random_index (1 / 2) ?n"
      by (rule nth_eq_iff_index_eq [OF getAvailableMoves_distinct
            random_index_less [OF z pos] random_index_less [OF h pos]])
    ultimately show ?thesis
      by (simp add: bestAIMove_fallback [OF none] getRandomMove_pick [OF ne])
  qed
  from calls rand best differ show ?thesis by blast
qed

theorem draw_dependence_witness:
  "(0::real) \<le> 2 / 5 \<and> (2 / 5 ::real) \<le> 1 - 1 / 2 ^ 53
   \<and> (0::real) \<le> 2001599834386887 / 2 ^ 52
   \<and> (2001599834386887 / 2 ^ 52 ::real) \<le> 1 - 1 / 2 ^ 53
   \<and> \<not> calls_random (Call_handleMove (startNewGame initialApp) 4)
   \<and> run (2 / 5) (Call_handleMove (startNewGame initialApp) 4)
       = run (2001599834386887 / 2 ^ 52) (Call_handleMove (startNewGame initialApp) 4)
   \<and> wins MarkX (board (game (play (startNewGame initialApp) [0, 4, 1]))) 2
   \<and> bestAIMove (2 / 5) (board (game (play (startNewGame initialApp) [0, 4, 1])))
       = bestAIMove (2001599834386887 / 2 ^ 52) (board (game (play (startNewGame initialApp) [0, 4, 1])))
   \<and> random_index (2 / 5) 9 = 3
   \<and> random_index (2001599834386887 / 2 ^ 52) 9 = 4
   \<and> list_all (\<lambda>j. \<not> wins MarkO (replicate 9 (Some Null)) j
                  \<and> \<not> wins MarkX (replicate 9 (Some Null)) j)
        (getAvailableMoves (replicate 9 (Some Null)))
   \<and> getRandomMove (2 / 5) (replicate 9 (Some Null))
       \<noteq> getRandomMove (2001599834386887 / 2 ^ 52) (replicate 9 (Some Null))
   \<and> bestAIMove (2 / 5) (replicate 9 (Some Null))
       \<noteq> bestAIMove (2001599834386887 / 2 ^ 52) (replicate 9 (Some Null))
   \<and> bestAIMove 0 (replicate 9 (Some Null)) \<noteq> bestAIMove (1 / 2) (replicate 9 (Some Null))"
proof -
  let ?k = "board (game (play (startNewGame initialApp) [0, 4, 1]))"
  let ?e = "replicate 9 (Some Null) :: board"
  let ?p = "2 / 5 :: real"
  let ?q = "2001599834386887 / 2 ^ 52 :: real"
  let ?c = "Call_handleMove (startNewGame initialApp) 4"
  have p: "0 \<le> ?p" "?p \<le> 1 - 1 / 2 ^ 53" by simp_all
  have q: "0 \<le> ?q" "?q \<le> 1 - 1 / 2 ^ 53" by simp_all
  have c0: "\<not> calls_random ?c" by simp
  have k0: "wins MarkX ?k 2" by code_simp
  have k1: "\<exists>j \<in> set (getAvailableMoves ?k). wins MarkO ?k j \<or> wins MarkX ?k j" by code_simp
  have i1: "random_index ?p 9 = 3" by code_simp
  have i2: "random_index ?q 9 = 4" by code_simp
  have e0: "\<forall>j \<in> set (getAvailableMoves ?e). \<not> wins MarkO ?e j \<and> \<not> wins MarkX ?e j"
    by code_simp
  have len: "length (getAvailableMoves ?e) = 9" by code_simp
  have e1: "getAvailableMoves ?e \<noteq> []" by code_simp
  have e2: "random_index ?p (length (getAvailableMoves ?e))
      \<noteq> random_index ?q (length (getAvailableMoves ?e))" unfolding len i1 i2 by simp
  have e3: "2 \<le> length (getAvailableMoves ?e) \<and> length (getAvailableMoves ?e) \<le> 2 ^ 53"
    unfolding len by simp
  from draw_dependence [OF p q, of ?c] c0
  have c: "run ?p ?c = run ?q ?c" by blast
  from draw_dependence [OF p q, of ?c ?k] k1
  have k: "bestAIMove ?p ?k = bestAIMove ?q ?k" by blast
  from draw_dependence [OF p q, of ?c ?e] e0 e1 e2
  have e: "getRandomMove ?p ?e \<noteq> getRandomMove ?q ?e \<and> bestAIMove ?p ?e \<noteq> bestAIMove ?q ?e"
    by blast
  from draw_dependence [OF p q, of ?c ?e] e0 e3
  have d: "bestAIMove 0 ?e \<noteq> bestAIMove (1 / 2) ?e" by blast
  from e0 have e0': "list_all (\<lambda>j. \<not> wins MarkO ?e j \<and> \<not> wins MarkX ?e j) (getAvailableMoves ?e)"
    by (simp add: list_all_iff)
  from p q c0 c k0 k i1 i2 e0' e d show ?thesis by blast
qed

end
